theory Spec2Isabelle
  imports Main
begin

section \<open>The greeting workflow of workflows.py\<close>

text \<open>
  The source declares one workflow class, \<^verbatim>\<open>SayHelloWorkflow\<close>, with a constructor, a
  run routine and a signal handler:
  \<^verbatim>\<open>
  def __init__(self) -> None:
      self._complete = False

  async def run(self, name: str) -> str:
      workflow.logger.info(f"Workflow called by user {user_id.get()}")
      user_id.set("random")
      await workflow.wait_condition(lambda: self._complete)
      activity_result = await workflow.execute_activity(say_hello_activity, name,
                                       start_to_close_timeout=timedelta(minutes=5))
      workflow.logger.info(f"Workflow called by user {user_id.get()}")
      return activity_result

  async def signal_complete(self) -> None:
      workflow.logger.info(f"Signal called by user {user_id.get()}")
      self._complete = True
  \<close>
  The run routine is a coroutine with two suspension points (the two \<^verbatim>\<open>await\<close>s). It is
  modelled by explicit state passing: the instance field, the coroutine's local state and
  its program counter are fields of a record, every statement with an effect appends that
  effect to a chronological list, and each segment of the coroutine between two
  suspension points is one function on the record.
\<close>

subsection \<open>Data\<close>

text \<open>\<^verbatim>\<open>datetime.timedelta\<close>, as its total number of microseconds.\<close>

datatype timedelta = Timedelta (total_microseconds: int)

definition timedelta_minutes :: "int \<Rightarrow> timedelta" where
  "timedelta_minutes m = Timedelta (m * 60 * 1000000)"

text \<open>The one activity the workflow refers to, by name.\<close>

datatype activity_fn = say_hello_activity

text \<open>
  What the activity invoker raises: the spec's \<^verbatim>\<open>ActivityFailure\<close>, for a timeout or
  for an error of the activity itself.
\<close>

datatype failure_cause = TimeoutError | ApplicationError string

datatype activity_failure = ActivityFailure failure_cause

text \<open>
  The activity invoker (\<^verbatim>\<open>workflow.execute_activity\<close>) is supplied by the host runtime; it
  is a parameter of the model: given the activity, its argument and the start-to-close
  timeout it answers with a string or raises.
\<close>

type_synonym invoker = "activity_fn \<Rightarrow> string \<Rightarrow> timedelta \<Rightarrow> activity_failure + string"

text \<open>The effects of the statements of the source, in the order they are executed.\<close>

datatype effect =
    Logger_info string
  | User_id_set string
  | Complete_assign bool
  | Execute_activity activity_fn string timedelta

text \<open>
  Where the run coroutine stands: constructed and not yet entered, suspended at
  \<^verbatim>\<open>wait_condition\<close>, suspended at \<^verbatim>\<open>execute_activity\<close>, returned with a value, or left
  by the exception the invoker raised.
\<close>

datatype run_pc =
    Created
  | At_wait_condition
  | At_execute_activity
  | Returned string
  | Raised activity_failure

text \<open>
  Modelled from the spec: the module \<^verbatim>\<open>shared\<close> that declares \<^verbatim>\<open>user_id\<close> is missing.
  The spec gives the identity context the contract \<^verbatim>\<open>get() -> string\<close>,
  \<^verbatim>\<open>set(value: string) -> void\<close>, "scoped to the current logical call" and "supplied by
  the host runtime per call". So every logical call has a value of its own: the one of the
  run routine is the field \<open>user_id\<close> below (read by \<^verbatim>\<open>get\<close>, replaced by \<^verbatim>\<open>set\<close>), the
  one of a signal delivery comes with the delivery.
\<close>

record workflow =
  complete :: bool
  input_name :: string
  user_id :: string
  pc :: run_pc
  effects :: "effect list"

subsection \<open>Operations\<close>

text \<open>
  Start: \<^verbatim>\<open>__init__\<close> sets \<^verbatim>\<open>self._complete = False\<close>; the run coroutine is created with
  its argument \<open>name\<close> and the caller's identity, and has not executed anything yet.
\<close>

definition start :: "string \<Rightarrow> string \<Rightarrow> workflow" where
  "start name uid =
     \<lparr>complete = False, input_name = name, user_id = uid, pc = Created, effects = []\<rparr>"

text \<open>The run routine from its entry to the first \<^verbatim>\<open>await\<close>.\<close>

definition run_enter :: "workflow \<Rightarrow> workflow" where
  "run_enter w =
     w\<lparr>effects := effects w @
          [Logger_info (''Workflow called by user '' @ user_id w), User_id_set ''random''],
       user_id := ''random'',
       pc := At_wait_condition\<rparr>"

text \<open>
  The run routine at \<^verbatim>\<open>wait_condition(lambda: self._complete)\<close>: it stays suspended while
  the flag is false; once the flag is true it goes on to \<^verbatim>\<open>execute_activity\<close> with
  \<open>name\<close> and a timeout of five minutes, and suspends there.
\<close>

definition run_wait_condition :: "workflow \<Rightarrow> workflow" where
  "run_wait_condition w =
     (if complete w
      then w\<lparr>effects := effects w @
                 [Execute_activity say_hello_activity (input_name w) (timedelta_minutes 5)],
             pc := At_execute_activity\<rparr>
      else w)"

text \<open>
  The run routine when the activity invocation is over: an exception of the invoker is
  not caught and leaves the routine; a result is bound to \<^verbatim>\<open>activity_result\<close>, the identity
  is logged again and the result is returned.
\<close>

definition run_activity_done :: "invoker \<Rightarrow> workflow \<Rightarrow> workflow" where
  "run_activity_done ivk w =
     (case ivk say_hello_activity (input_name w) (timedelta_minutes 5) of
        Inl e \<Rightarrow> w\<lparr>pc := Raised e\<rparr>
      | Inr activity_result \<Rightarrow>
          w\<lparr>effects := effects w @ [Logger_info (''Workflow called by user '' @ user_id w)],
            pc := Returned activity_result\<rparr>)"

text \<open>One turn of the run coroutine: from where it stands to its next suspension point.\<close>

definition run :: "invoker \<Rightarrow> workflow \<Rightarrow> workflow" where
  "run ivk w =
     (case pc w of
        Created \<Rightarrow> run_enter w
      | At_wait_condition \<Rightarrow> run_wait_condition w
      | At_execute_activity \<Rightarrow> run_activity_done ivk w
      | Returned r \<Rightarrow> w
      | Raised e \<Rightarrow> w)"

text \<open>
  The signal handler, called with the identity of the delivery. It returns \<^verbatim>\<open>None\<close>:
  the value component of the result is of type \<open>unit\<close>.
\<close>

definition signal_complete :: "string \<Rightarrow> workflow \<Rightarrow> unit \<times> workflow" where
  "signal_complete uid w =
     ((), w\<lparr>effects := effects w @
                [Logger_info (''Signal called by user '' @ uid), Complete_assign True],
             complete := True\<rparr>)"

text \<open>
  The host runtime interleaves turns of the run coroutine and deliveries of the signal,
  one at a time, in any order.
\<close>

datatype event = Resume | Signal string

fun step :: "invoker \<Rightarrow> workflow \<Rightarrow> event \<Rightarrow> workflow" where
  "step ivk w Resume = run ivk w"
| "step ivk w (Signal uid) = snd (signal_complete uid w)"

definition exec :: "invoker \<Rightarrow> workflow \<Rightarrow> event list \<Rightarrow> workflow" where
  "exec ivk w evs = foldl (step ivk) w evs"

subsection \<open>Observations\<close>

text \<open>The invocations of the activity invoker, in order, with their arguments.\<close>

fun activity_calls :: "effect list \<Rightarrow> (activity_fn \<times> string \<times> timedelta) list" where
  "activity_calls [] = []"
| "activity_calls (Execute_activity a n t # es) = (a, n, t) # activity_calls es"
| "activity_calls (Logger_info m # es) = activity_calls es"
| "activity_calls (User_id_set v # es) = activity_calls es"
| "activity_calls (Complete_assign b # es) = activity_calls es"

text \<open>The workflow's final result, absent until the run routine has returned.\<close>

definition result :: "workflow \<Rightarrow> string option" where
  "result w = (case pc w of Returned r \<Rightarrow> Some r | _ \<Rightarrow> None)"

text \<open>
  The states of the spec's state machine: \<open>COMPLETED\<close> once the run routine has returned
  a result, \<open>FAILED\<close> once it was left by an exception, \<open>WAITING\<close> before.
\<close>

datatype status = WAITING | COMPLETED | FAILED

definition status_of :: "workflow \<Rightarrow> status" where
  "status_of w =
     (case pc w of Returned r \<Rightarrow> COMPLETED | Raised e \<Rightarrow> FAILED | _ \<Rightarrow> WAITING)"

text \<open>The events that deliver the signal.\<close>

fun is_signal :: "event \<Rightarrow> bool" where
  "is_signal (Signal uid) = True"
| "is_signal Resume = False"

text \<open>
  What of an instance the identity context cannot be seen in: everything but the
  identity itself and the text of the log lines.
\<close>

fun no_log :: "effect list \<Rightarrow> effect list" where
  "no_log [] = []"
| "no_log (Logger_info m # es) = no_log es"
| "no_log (e # es) = e # no_log es"

text \<open>An activity invoker for the examples: the greeting of the spec's scenario.\<close>

definition greet :: invoker where
  "greet a n t = Inr (''Hello, '' @ n @ ''!'')"

definition timing_out :: invoker where
  "timing_out a n t = Inl (ActivityFailure TimeoutError)"

text \<open>How far the run coroutine has come.\<close>

fun rank :: "run_pc \<Rightarrow> nat" where
  "rank Created = 0"
| "rank At_wait_condition = 1"
| "rank At_execute_activity = 2"
| "rank (Returned r) = 3"
| "rank (Raised e) = 3"

text \<open>The one invocation the run routine makes.\<close>

definition the_call :: "string \<Rightarrow> activity_fn \<times> string \<times> timedelta" where
  "the_call name = (say_hello_activity, name, timedelta_minutes 5)"

text \<open>
  What holds of every instance the operations can reach from \<open>start name uid\<close>: the
  invoker has been called once the coroutine is past \<^verbatim>\<open>wait_condition\<close>, and not before;
  by then the flag is set; and the coroutine ends the way the invoker answered.
\<close>

definition consistent :: "invoker \<Rightarrow> string \<Rightarrow> workflow \<Rightarrow> bool" where
  "consistent ivk name w \<longleftrightarrow>
     input_name w = name \<and>
     (case pc w of
        Created \<Rightarrow> activity_calls (effects w) = []
      | At_wait_condition \<Rightarrow> activity_calls (effects w) = []
      | At_execute_activity \<Rightarrow> complete w \<and> activity_calls (effects w) = [the_call name]
      | Returned r \<Rightarrow>
          complete w \<and> activity_calls (effects w) = [the_call name] \<and>
          ivk say_hello_activity name (timedelta_minutes 5) = Inr r
      | Raised e \<Rightarrow>
          complete w \<and> activity_calls (effects w) = [the_call name] \<and>
          ivk say_hello_activity name (timedelta_minutes 5) = Inl e)"

text \<open>
  The order of the flag and the invocation, for the induction over schedules: a true flag
  was assigned, and an invocation has the assignment before it.
\<close>

definition signalled_first :: "workflow \<Rightarrow> bool" where
  "signalled_first w \<longleftrightarrow>
     (complete w \<longrightarrow> Complete_assign True \<in> set (effects w)) \<and>
     (\<forall>pre a n t post. effects w = pre @ Execute_activity a n t # post \<longrightarrow>
        Complete_assign True \<in> set pre)"

text \<open>
  Two instances that agree in everything but the effects of signal deliveries that came
  after the flag was set.
\<close>

definition same_core :: "workflow \<Rightarrow> workflow \<Rightarrow> bool" where
  "same_core w1 w2 \<longleftrightarrow>
     complete w1 = complete w2 \<and> pc w1 = pc w2 \<and> input_name w1 = input_name w2 \<and>
     user_id w1 = user_id w2 \<and>
     activity_calls (effects w1) = activity_calls (effects w2)"

text \<open>Two instances that agree in everything but the identities and the log lines.\<close>

definition same_but_identity :: "workflow \<Rightarrow> workflow \<Rightarrow> bool" where
  "same_but_identity w1 w2 \<longleftrightarrow>
     complete w1 = complete w2 \<and> pc w1 = pc w2 \<and> input_name w1 = input_name w2 \<and>
     no_log (effects w1) = no_log (effects w2)"

section \<open>Basic facts\<close>

lemma exec_Nil: "exec ivk w [] = w"
  by (simp add: exec_def)

lemma exec_Cons: "exec ivk w (e # evs) = exec ivk (step ivk w e) evs"
  by (simp add: exec_def)

lemma exec_append: "exec ivk w (xs @ ys) = exec ivk (exec ivk w xs) ys"
  by (simp add: exec_def)

lemma exec_snoc: "exec ivk w (xs @ [e]) = step ivk (exec ivk w xs) e"
  by (simp add: exec_def)

lemma activity_calls_append:
  "activity_calls (xs @ ys) = activity_calls xs @ activity_calls ys"
  by (induction xs rule: activity_calls.induct) simp_all



lemma step_Signal_fields:
  "complete (step ivk w (Signal u))"
  "pc (step ivk w (Signal u)) = pc w"
  "input_name (step ivk w (Signal u)) = input_name w"
  "user_id (step ivk w (Signal u)) = user_id w"
  "effects (step ivk w (Signal u)) =
     effects w @ [Logger_info (''Signal called by user '' @ u), Complete_assign True]"
  by (simp_all add: signal_complete_def)

lemma run_complete: "complete (run ivk w) = complete w"
  by (simp add: run_def run_enter_def run_wait_condition_def run_activity_done_def
           split: run_pc.splits sum.splits)

lemma run_input_name: "input_name (run ivk w) = input_name w"
  by (simp add: run_def run_enter_def run_wait_condition_def run_activity_done_def
           split: run_pc.splits sum.splits)

lemma step_complete_mono: "complete w \<Longrightarrow> complete (step ivk w e)"
  by (cases e) (simp_all add: run_complete signal_complete_def)

lemma exec_complete_mono: "complete w \<Longrightarrow> complete (exec ivk w evs)"
  by (induction evs arbitrary: w) (simp_all add: exec_Nil exec_Cons step_complete_mono)

lemma rank_le_3: "rank p \<le> 3"
  by (cases p) simp_all

lemma rank_run_complete:
  "complete w \<Longrightarrow> rank (pc (run ivk w)) = min 3 (Suc (rank (pc w)))"
  by (simp add: run_def run_enter_def run_wait_condition_def run_activity_done_def
           split: run_pc.splits sum.splits)

lemma rank_exec_complete:
  "complete w \<Longrightarrow> rank (pc (exec ivk w evs)) = min 3 (rank (pc w) + count_list evs Resume)"
proof (induction evs arbitrary: w)
  case Nil
  then show ?case by (simp add: exec_Nil rank_le_3)
next
  case (Cons e evs)
  show ?case
  proof (cases e)
    case Resume
    have "rank (pc (exec ivk (run ivk w) evs))
            = min 3 (rank (pc (run ivk w)) + count_list evs Resume)"
      using Cons.IH [of "run ivk w"] Cons.prems by (simp add: run_complete)
    then show ?thesis
      using Resume Cons.prems by (simp add: exec_Cons rank_run_complete)
  next
    case (Signal u)
    let ?w' = "step ivk w (Signal u)"
    have "rank (pc (exec ivk ?w' evs)) = min 3 (rank (pc ?w') + count_list evs Resume)"
      by (rule Cons.IH) (rule step_Signal_fields)
    then show ?thesis
      using Signal by (simp add: exec_Cons step_Signal_fields del: step.simps)
  qed
qed

lemma consistent_start: "consistent ivk name (start name uid)"
  by (simp add: consistent_def start_def)

lemma consistent_run: "consistent ivk name w \<Longrightarrow> consistent ivk name (run ivk w)"
  by (auto simp: consistent_def run_def run_enter_def run_wait_condition_def
        run_activity_done_def activity_calls_append the_call_def
      split: run_pc.splits sum.splits)

lemma consistent_signal:
  "consistent ivk name w \<Longrightarrow> consistent ivk name (snd (signal_complete u w))"
  by (auto simp: consistent_def signal_complete_def activity_calls_append
      split: run_pc.splits)

lemma consistent_step: "consistent ivk name w \<Longrightarrow> consistent ivk name (step ivk w e)"
  by (cases e) (simp_all add: consistent_run consistent_signal)

lemma consistent_exec: "consistent ivk name w \<Longrightarrow> consistent ivk name (exec ivk w evs)"
  by (induction evs arbitrary: w) (simp_all add: exec_Nil exec_Cons consistent_step)

lemma reachable_consistent: "consistent ivk name (exec ivk (start name uid) evs)"
  by (rule consistent_exec) (rule consistent_start)

lemma consistent_calls_le: "consistent ivk name w \<Longrightarrow> length (activity_calls (effects w)) \<le> 1"
  by (auto simp: consistent_def split: run_pc.splits)

lemma consistent_calls_rank:
  "consistent ivk name w \<Longrightarrow>
     activity_calls (effects w) = (if 2 \<le> rank (pc w) then [the_call name] else [])"
  by (auto simp: consistent_def split: run_pc.splits)

lemma consistent_Returned:
  "consistent ivk name w \<Longrightarrow> pc w = Returned r \<Longrightarrow>
     ivk say_hello_activity name (timedelta_minutes 5) = Inr r"
  by (simp add: consistent_def)

lemma consistent_Raised:
  "consistent ivk name w \<Longrightarrow> pc w = Raised e \<Longrightarrow>
     ivk say_hello_activity name (timedelta_minutes 5) = Inl e"
  by (simp add: consistent_def)

lemma rank_3: "rank p = 3 \<longleftrightarrow> (\<exists>r. p = Returned r) \<or> (\<exists>e. p = Raised e)"
  by (cases p) simp_all

text \<open>After a signal and three turns the run routine is over.\<close>

lemma finished_after_signal:
  assumes "3 \<le> count_list post Resume"
  shows "rank (pc (exec ivk w (pre @ Signal u # post))) = 3"
proof -
  let ?w = "step ivk (exec ivk w pre) (Signal u)"
  have "rank (pc (exec ivk ?w post)) = min 3 (rank (pc ?w) + count_list post Resume)"
    by (rule rank_exec_complete) (rule step_Signal_fields)
  then have "rank (pc (exec ivk ?w post)) = 3"
    using assms by simp
  then show ?thesis
    by (simp add: exec_append exec_Cons del: step.simps)
qed

text \<open>Without a signal the run routine enters, suspends and stays where it is.\<close>

lemma run_enter_start_waits:
  "\<not> list_ex is_signal evs \<Longrightarrow>
     exec ivk (run_enter (start name uid)) evs = run_enter (start name uid)"
proof (induction evs)
  case Nil
  show ?case by (simp add: exec_Nil)
next
  case (Cons e evs)
  from Cons.prems have e: "e = Resume" and rest: "\<not> list_ex is_signal evs"
    by (cases e; simp)+
  have "run ivk (run_enter (start name uid)) = run_enter (start name uid)"
    by (simp add: run_def run_enter_def run_wait_condition_def start_def)
  with e Cons.IH [OF rest] show ?case
    by (simp add: exec_Cons)
qed

lemma exec_start_unsignalled:
  assumes "\<not> list_ex is_signal evs"
  shows "exec ivk (start name uid) evs =
           (if evs = [] then start name uid else run_enter (start name uid))"
proof (cases evs)
  case Nil
  then show ?thesis by (simp add: exec_Nil)
next
  case (Cons e evs')
  from assms Cons have e: "e = Resume" and rest: "\<not> list_ex is_signal evs'"
    by (cases e; simp)+
  have "step ivk (start name uid) Resume = run_enter (start name uid)"
    by (simp add: run_def start_def)
  with Cons e run_enter_start_waits [OF rest] show ?thesis
    by (simp add: exec_Cons del: step.simps)
qed

lemma count_list_unsignalled: "\<not> list_ex is_signal evs \<Longrightarrow> count_list evs Resume = length evs"
proof (induction evs)
  case Nil
  show ?case by simp
next
  case (Cons e evs)
  then show ?case by (cases e) simp_all
qed

lemma append_split:
  assumes "xs @ ys = pre @ e # post"
  shows "(\<exists>post'. xs = pre @ e # post') \<or> (e \<in> set ys \<and> set xs \<subseteq> set pre)"
proof -
  from assms obtain us where
    "(xs = pre @ us \<and> us @ ys = e # post) \<or> (xs @ us = pre \<and> ys = us @ e # post)"
    by (auto simp: append_eq_append_conv2)
  then show ?thesis
  proof
    assume a: "xs = pre @ us \<and> us @ ys = e # post"
    show ?thesis
    proof (cases us)
      case Nil
      with a show ?thesis by auto
    next
      case (Cons u us')
      with a show ?thesis by auto
    qed
  next
    assume "xs @ us = pre \<and> ys = us @ e # post"
    then show ?thesis by auto
  qed
qed

lemma signalled_first_append:
  assumes inv: "signalled_first w"
    and eff: "effects w' = effects w @ ys"
    and flag: "complete w' \<Longrightarrow> complete w \<or> Complete_assign True \<in> set ys"
    and call: "\<And>a n t. Execute_activity a n t \<in> set ys \<Longrightarrow> complete w"
  shows "signalled_first w'"
  unfolding signalled_first_def
proof (intro conjI allI impI)
  assume "complete w'"
  then have "complete w \<or> Complete_assign True \<in> set ys"
    by (rule flag)
  then show "Complete_assign True \<in> set (effects w')"
  proof
    assume "complete w"
    with inv have "Complete_assign True \<in> set (effects w)"
      by (simp add: signalled_first_def)
    then show ?thesis by (simp add: eff)
  next
    assume "Complete_assign True \<in> set ys"
    then show ?thesis by (simp add: eff)
  qed
next
  fix pre a n t post
  assume "effects w' = pre @ Execute_activity a n t # post"
  then have "effects w @ ys = pre @ Execute_activity a n t # post"
    by (simp add: eff)
  from append_split [OF this]
  show "Complete_assign True \<in> set pre"
  proof
    assume "\<exists>post'. effects w = pre @ Execute_activity a n t # post'"
    then obtain post' where "effects w = pre @ Execute_activity a n t # post'" ..
    with inv show ?thesis
      unfolding signalled_first_def by blast
  next
    assume new: "Execute_activity a n t \<in> set ys \<and> set (effects w) \<subseteq> set pre"
    then have "complete w" by (blast intro: call)
    with inv have "Complete_assign True \<in> set (effects w)"
      by (simp add: signalled_first_def)
    with new show ?thesis by blast
  qed
qed

lemma signalled_first_start: "signalled_first (start name uid)"
  by (simp add: signalled_first_def start_def)

lemma signalled_first_signal:
  assumes "signalled_first w"
  shows "signalled_first (snd (signal_complete u w))"
  by (rule signalled_first_append [OF assms, where ys = "[Logger_info
        (''Signal called by user '' @ u), Complete_assign True]"])
     (simp_all add: signal_complete_def)

lemma signalled_first_run:
  assumes "signalled_first w"
  shows "signalled_first (run ivk w)"
proof (cases "pc w")
  case Created
  show ?thesis
    by (rule signalled_first_append [OF assms, where ys = "[Logger_info
          (''Workflow called by user '' @ user_id w), User_id_set ''random'']"])
       (simp_all add: run_def Created run_enter_def)
next
  case At_wait_condition
  show ?thesis
  proof (cases "complete w")
    case True
    show ?thesis
      by (rule signalled_first_append [OF assms, where ys = "[Execute_activity
            say_hello_activity (input_name w) (timedelta_minutes 5)]"])
         (simp_all add: run_def At_wait_condition run_wait_condition_def True)
  next
    case False
    with assms At_wait_condition show ?thesis
      by (simp add: run_def run_wait_condition_def)
  qed
next
  case At_execute_activity
  show ?thesis
  proof (cases "ivk say_hello_activity (input_name w) (timedelta_minutes 5)")
    case (Inl f)
    with assms At_execute_activity show ?thesis
      by (simp add: run_def run_activity_done_def signalled_first_def)
  next
    case (Inr r)
    show ?thesis
      by (rule signalled_first_append [OF assms, where ys = "[Logger_info
            (''Workflow called by user '' @ user_id w)]"])
         (simp_all add: run_def At_execute_activity run_activity_done_def Inr)
  qed
next
  case (Returned r)
  with assms show ?thesis by (simp add: run_def)
next
  case (Raised f)
  with assms show ?thesis by (simp add: run_def)
qed

lemma signalled_first_step: "signalled_first w \<Longrightarrow> signalled_first (step ivk w e)"
  by (cases e) (simp_all add: signalled_first_run signalled_first_signal)

lemma signalled_first_exec: "signalled_first w \<Longrightarrow> signalled_first (exec ivk w evs)"
  by (induction evs arbitrary: w) (simp_all add: exec_Nil exec_Cons signalled_first_step)

lemma step_new_call:
  assumes "activity_calls (effects (step ivk w e)) \<noteq> activity_calls (effects w)"
  shows "complete w \<and> e = Resume \<and> pc w = At_wait_condition"
proof (cases e)
  case Resume
  with assms show ?thesis
    by (cases "pc w")
       (auto simp: run_def run_enter_def run_wait_condition_def run_activity_done_def
          activity_calls_append split: sum.splits if_splits)
next
  case (Signal u)
  with assms show ?thesis
    by (simp add: signal_complete_def activity_calls_append)
qed

lemma no_log_append: "no_log (xs @ ys) = no_log xs @ no_log ys"
  by (induction xs rule: no_log.induct) simp_all

lemma activity_calls_no_log: "activity_calls (no_log es) = activity_calls es"
  by (induction es rule: no_log.induct) simp_all

lemma no_reset_run:
  "Complete_assign False \<notin> set (effects w) \<Longrightarrow> Complete_assign False \<notin> set (effects (run ivk w))"
  by (cases "pc w")
     (simp_all add: run_def run_enter_def run_wait_condition_def run_activity_done_def
        split: sum.splits)

lemma no_reset_step:
  "Complete_assign False \<notin> set (effects w) \<Longrightarrow>
     Complete_assign False \<notin> set (effects (step ivk w e))"
  by (cases e) (simp_all add: no_reset_run signal_complete_def)

lemma no_reset_exec:
  "Complete_assign False \<notin> set (effects w) \<Longrightarrow>
     Complete_assign False \<notin> set (effects (exec ivk w evs))"
  by (induction evs arbitrary: w) (simp_all add: exec_Nil exec_Cons no_reset_step del: step.simps)

lemma same_core_refl: "same_core w w"
  by (simp add: same_core_def)

lemma same_core_run: "same_core w1 w2 \<Longrightarrow> same_core (run ivk w1) (run ivk w2)"
  by (auto simp: same_core_def run_def run_enter_def run_wait_condition_def
        run_activity_done_def activity_calls_append split: run_pc.splits sum.splits)

lemma same_core_extra_signal:
  "complete w1 \<Longrightarrow> same_core w1 w2 \<Longrightarrow> same_core (snd (signal_complete u w1)) w2"
  by (auto simp: same_core_def signal_complete_def activity_calls_append)

lemma same_core_exec:
  "complete w1 \<Longrightarrow> same_core w1 w2 \<Longrightarrow>
     same_core (exec ivk w1 post) (exec ivk w2 (filter (\<lambda>e. \<not> is_signal e) post))"
proof (induction post arbitrary: w1 w2)
  case Nil
  then show ?case by (simp add: exec_Nil)
next
  case (Cons e post)
  show ?case
  proof (cases e)
    case Resume
    have "same_core (exec ivk (run ivk w1) post)
            (exec ivk (run ivk w2) (filter (\<lambda>e. \<not> is_signal e) post))"
      using Cons.prems by (intro Cons.IH) (simp_all add: run_complete same_core_run)
    with Resume show ?thesis by (simp add: exec_Cons)
  next
    case (Signal u)
    have "same_core (exec ivk (snd (signal_complete u w1)) post)
            (exec ivk w2 (filter (\<lambda>e. \<not> is_signal e) post))"
    proof (rule Cons.IH)
      show "complete (snd (signal_complete u w1))"
        by (simp add: signal_complete_def)
      show "same_core (snd (signal_complete u w1)) w2"
        using Cons.prems by (rule same_core_extra_signal)
    qed
    with Signal show ?thesis by (simp add: exec_Cons)
  qed
qed

lemma same_but_identity_start: "same_but_identity (start name uid1) (start name uid2)"
  by (simp add: same_but_identity_def start_def)

lemma same_but_identity_run:
  "same_but_identity w1 w2 \<Longrightarrow> same_but_identity (run ivk w1) (run ivk w2)"
  by (auto simp: same_but_identity_def run_def run_enter_def run_wait_condition_def
        run_activity_done_def no_log_append split: run_pc.splits sum.splits)

lemma same_but_identity_signal:
  "same_but_identity w1 w2 \<Longrightarrow>
     same_but_identity (snd (signal_complete u1 w1)) (snd (signal_complete u2 w2))"
  by (simp add: same_but_identity_def signal_complete_def no_log_append)

lemma same_but_identity_exec:
  "same_but_identity w1 w2 \<Longrightarrow> map is_signal evs1 = map is_signal evs2 \<Longrightarrow>
     same_but_identity (exec ivk w1 evs1) (exec ivk w2 evs2)"
proof (induction evs1 arbitrary: w1 w2 evs2)
  case Nil
  then show ?case by (simp add: exec_Nil)
next
  case (Cons e1 evs1)
  from Cons.prems(2) obtain e2 evs2' where evs2: "evs2 = e2 # evs2'"
    and hd: "is_signal e1 = is_signal e2" and tl: "map is_signal evs1 = map is_signal evs2'"
    by (cases evs2) auto
  have "same_but_identity (step ivk w1 e1) (step ivk w2 e2)"
    using hd Cons.prems(1)
    by (cases e1; cases e2) (simp_all add: same_but_identity_run same_but_identity_signal)
  then have "same_but_identity (exec ivk (step ivk w1 e1) evs1) (exec ivk (step ivk w2 e2) evs2')"
    using tl by (rule Cons.IH)
  with evs2 show ?case by (simp add: exec_Cons del: step.simps)
qed

text \<open>The run routine, turn by turn.\<close>

lemma run_at_wait_incomplete:
  "pc w = At_wait_condition \<Longrightarrow> \<not> complete w \<Longrightarrow> run ivk w = w"
  by (simp add: run_def run_wait_condition_def)

lemma run_at_wait_complete:
  "pc w = At_wait_condition \<Longrightarrow> complete w \<Longrightarrow>
     run ivk w = w\<lparr>effects := effects w @
                      [Execute_activity say_hello_activity (input_name w) (timedelta_minutes 5)],
                    pc := At_execute_activity\<rparr>"
  by (simp add: run_def run_wait_condition_def)

lemma run_created:
  "pc w = Created \<Longrightarrow>
     run ivk w = w\<lparr>effects := effects w @
                      [Logger_info (''Workflow called by user '' @ user_id w),
                       User_id_set ''random''],
                    user_id := ''random'', pc := At_wait_condition\<rparr>"
  by (simp add: run_def run_enter_def)

section \<open>The claims\<close>

text \<open>
  C1. If the activity invoker returns the string \<open>R\<close> for the invocation made with the
  instance's input name (and the five-minute timeout), the workflow's final result is
  exactly \<open>R\<close>: under every schedule of turns and signal deliveries a result, once there, is
  \<open>R\<close>; and whenever a signal is followed by at least three turns of the run routine, the
  result is there and is \<open>R\<close>.
\<close>

theorem result_is_activity_result:
  assumes "ivk say_hello_activity name (timedelta_minutes 5) = Inr R"
  shows "(\<forall>uid evs r. result (exec ivk (start name uid) evs) = Some r \<longrightarrow> r = R) \<and>
         (\<forall>uid pre u post. 3 \<le> count_list post Resume \<longrightarrow>
            result (exec ivk (start name uid) (pre @ Signal u # post)) = Some R)"
proof (intro conjI allI impI)
  fix uid evs r
  assume "result (exec ivk (start name uid) evs) = Some r"
  then have "pc (exec ivk (start name uid) evs) = Returned r"
    by (simp add: result_def split: run_pc.splits)
  then have "ivk say_hello_activity name (timedelta_minutes 5) = Inr r"
    by (rule consistent_Returned [OF reachable_consistent])
  with assms show "r = R" by simp
next
  fix uid pre u post
  assume turns: "3 \<le> count_list post Resume"
  let ?w = "exec ivk (start name uid) (pre @ Signal u # post)"
  have "rank (pc ?w) = 3"
    using turns by (rule finished_after_signal)
  then consider r where "pc ?w = Returned r" | e where "pc ?w = Raised e"
    by (auto simp: rank_3)
  then show "result ?w = Some R"
  proof cases
    case 1
    then have "ivk say_hello_activity name (timedelta_minutes 5) = Inr r"
      by (rule consistent_Returned [OF reachable_consistent])
    with assms 1 show ?thesis by (simp add: result_def)
  next
    case 2
    then have "ivk say_hello_activity name (timedelta_minutes 5) = Inl e"
      by (rule consistent_Raised [OF reachable_consistent])
    with assms show ?thesis by simp
  qed
qed

theorem result_is_activity_result_witness:
  "greet say_hello_activity ''World'' (timedelta_minutes 5) = Inr ''Hello, World!'' \<and>
   3 \<le> count_list [Resume, Resume, Resume] Resume \<and>
   result (exec greet (start ''World'' ''alice'')
             ([Resume] @ Signal ''bob'' # [Resume, Resume, Resume])) = Some ''Hello, World!'' \<and>
   result (exec greet (start ''World'' ''alice'') [Resume, Signal ''bob'', Resume, Resume])
     = Some ''Hello, World!''"
proof -
  have h: "greet say_hello_activity ''World'' (timedelta_minutes 5) = Inr ''Hello, World!''"
    by (simp add: greet_def)
  have c: "3 \<le> count_list [Resume, Resume, Resume] Resume"
    by simp
  have e: "result (exec greet (start ''World'' ''alice'') [Resume, Signal ''bob'', Resume, Resume])
             = Some ''Hello, World!''"
    by (simp add: exec_def run_def run_enter_def run_wait_condition_def run_activity_done_def
          signal_complete_def start_def result_def greet_def)
  from result_is_activity_result [of greet "''World''" "''Hello, World!''", OF h] c e h show ?thesis
    by blast
qed

text \<open>
  C2. For every input \<open>name\<close>: when the instance is started and \<^verbatim>\<open>signal_complete\<close> is
  delivered exactly once (no delivery in \<open>pre\<close>, none in \<open>post\<close>), the activity invoker is
  called exactly once, with \<open>name\<close> and a start-to-close timeout of five minutes, as soon as
  the run routine has had its turns: one turn after the signal when it had entered before,
  two when it had not. Before that it is not called.
\<close>

theorem one_signal_one_invocation:
  assumes "\<not> list_ex is_signal pre" and "\<not> list_ex is_signal post"
  shows "activity_calls (effects (exec ivk (start name uid) (pre @ Signal u # post))) =
           (if 2 \<le> min 1 (length pre) + length post
            then [(say_hello_activity, name, timedelta_minutes 5)] else []) \<and>
         timedelta_minutes 5 = Timedelta (5 * 60 * 1000000)"
proof -
  let ?a = "exec ivk (start name uid) pre"
  let ?s = "step ivk ?a (Signal u)"
  let ?w = "exec ivk (start name uid) (pre @ Signal u # post)"
  have w: "?w = exec ivk ?s post"
    by (simp add: exec_append exec_Cons del: step.simps)
  have "rank (pc ?a) = min 1 (length pre)"
    using exec_start_unsignalled [OF assms(1), of ivk name uid]
    by (cases pre) (simp_all add: start_def run_enter_def)
  then have "rank (pc ?s) = min 1 (length pre)"
    by (simp add: step_Signal_fields del: step.simps)
  moreover have "rank (pc (exec ivk ?s post)) = min 3 (rank (pc ?s) + count_list post Resume)"
    by (rule rank_exec_complete) (rule step_Signal_fields)
  ultimately have r: "rank (pc ?w) = min 3 (min 1 (length pre) + length post)"
    using w count_list_unsignalled [OF assms(2)] by simp
  have "activity_calls (effects ?w) = (if 2 \<le> rank (pc ?w) then [the_call name] else [])"
    by (rule consistent_calls_rank) (rule reachable_consistent)
  with r show ?thesis
    by (simp add: the_call_def timedelta_minutes_def)
qed

theorem one_signal_one_invocation_witness:
  "\<not> list_ex is_signal [Resume] \<and> \<not> list_ex is_signal [Resume, Resume] \<and>
   activity_calls (effects (exec greet (start ''World'' ''alice'')
       ([Resume] @ Signal ''bob'' # [Resume, Resume]))) =
     [(say_hello_activity, ''World'', Timedelta 300000000)]"
proof -
  have a: "\<not> list_ex is_signal [Resume]" and b: "\<not> list_ex is_signal [Resume, Resume]"
    by simp_all
  from one_signal_one_invocation [OF a b, of greet "''World''" "''alice''" "''bob''"] a b
  show ?thesis by simp
qed

text \<open>
  C4. For every input \<open>name\<close>: when the instance is started and \<^verbatim>\<open>signal_complete\<close> is never
  delivered, then however many turns the run routine is given, the instance is in the state
  reached by entering the routine (suspended at \<^verbatim>\<open>wait_condition\<close>), its status is
  \<open>WAITING\<close>, there is no result and the activity invoker has not been called.
\<close>

theorem never_signalled_stays_waiting:
  assumes "\<not> list_ex is_signal evs"
  shows "exec ivk (start name uid) evs =
           (if evs = [] then start name uid else run_enter (start name uid)) \<and>
         status_of (exec ivk (start name uid) evs) = WAITING \<and>
         \<not> complete (exec ivk (start name uid) evs) \<and>
         result (exec ivk (start name uid) evs) = None \<and>
         activity_calls (effects (exec ivk (start name uid) evs)) = []"
  using exec_start_unsignalled [OF assms, of ivk name uid]
  by (simp add: status_of_def result_def start_def run_enter_def)

theorem never_signalled_stays_waiting_witness:
  "\<not> list_ex is_signal [Resume, Resume, Resume, Resume] \<and>
   status_of (exec greet (start ''World'' ''alice'') [Resume, Resume, Resume, Resume]) = WAITING \<and>
   pc (exec greet (start ''World'' ''alice'') [Resume, Resume, Resume, Resume]) = At_wait_condition \<and>
   activity_calls (effects (exec greet (start ''World'' ''alice'') [Resume, Resume, Resume, Resume])) = []"
proof -
  have a: "\<not> list_ex is_signal [Resume, Resume, Resume, Resume]"
    by simp
  from never_signalled_stays_waiting [OF a, of greet "''World''" "''alice''"] a
  show ?thesis by (simp add: run_enter_def start_def status_of_def)
qed

text \<open>
  C3. For every instance and every interleaving of turns of the run routine and signal
  deliveries: the activity is invoked at most once, every invocation in the sequence of
  effects has an assignment \<^verbatim>\<open>self._complete = True\<close> (made by the signal handler only)
  before it, and a step that adds an invocation is a turn of the run routine taken at
  \<^verbatim>\<open>wait_condition\<close> with the flag true.
\<close>

theorem invoked_at_most_once_after_signal:
  "length (activity_calls (effects (exec ivk (start name uid) evs))) \<le> 1 \<and>
   (\<forall>pre a n t post.
      effects (exec ivk (start name uid) evs) = pre @ Execute_activity a n t # post \<longrightarrow>
      Complete_assign True \<in> set pre) \<and>
   (\<forall>w e. activity_calls (effects (step ivk w e)) \<noteq> activity_calls (effects w) \<longrightarrow>
      complete w \<and> e = Resume \<and> pc w = At_wait_condition)"
proof (intro conjI)
  show "length (activity_calls (effects (exec ivk (start name uid) evs))) \<le> 1"
    by (rule consistent_calls_le) (rule reachable_consistent)
next
  have "signalled_first (exec ivk (start name uid) evs)"
    by (rule signalled_first_exec) (rule signalled_first_start)
  then show "\<forall>pre a n t post.
      effects (exec ivk (start name uid) evs) = pre @ Execute_activity a n t # post \<longrightarrow>
      Complete_assign True \<in> set pre"
    by (simp add: signalled_first_def)
next
  show "\<forall>w e. activity_calls (effects (step ivk w e)) \<noteq> activity_calls (effects w) \<longrightarrow>
      complete w \<and> e = Resume \<and> pc w = At_wait_condition"
    using step_new_call by blast
qed

theorem invoked_at_most_once_after_signal_witness:
  "effects (exec greet (start ''World'' ''alice'') [Resume, Signal ''bob'', Resume]) =
     [Logger_info ''Workflow called by user alice'', User_id_set ''random'',
      Logger_info ''Signal called by user bob'', Complete_assign True]
     @ Execute_activity say_hello_activity ''World'' (timedelta_minutes 5) # [] \<and>
   Complete_assign True \<in> set [Logger_info ''Workflow called by user alice'',
      User_id_set ''random'', Logger_info ''Signal called by user bob'', Complete_assign True] \<and>
   length (activity_calls (effects
      (exec greet (start ''World'' ''alice'') [Resume, Signal ''bob'', Resume]))) \<le> 1"
proof -
  have e: "effects (exec greet (start ''World'' ''alice'') [Resume, Signal ''bob'', Resume]) =
     [Logger_info ''Workflow called by user alice'', User_id_set ''random'',
      Logger_info ''Signal called by user bob'', Complete_assign True]
     @ Execute_activity say_hello_activity ''World'' (timedelta_minutes 5) # []"
    by (simp add: exec_def run_def run_enter_def run_wait_condition_def signal_complete_def
          start_def)
  from invoked_at_most_once_after_signal
         [of greet "''World''" "''alice''" "[Resume, Signal ''bob'', Resume]"] e
  show ?thesis by blast
qed

text \<open>
  C9. The flag is monotone: from any instance whose flag is true, a turn of the run
  routine, a signal delivery and any sequence of both leave it true; and no operation
  ever assigns \<open>False\<close> to it after the constructor (no such assignment occurs among the
  effects of any schedule).
\<close>

theorem complete_is_monotone:
  "(complete w \<longrightarrow> complete (run ivk w) \<and> complete (snd (signal_complete u w)) \<and>
      complete (exec ivk w evs)) \<and>
   Complete_assign False \<notin> set (effects (exec ivk (start name uid) evs))"
proof (intro conjI impI)
  assume "complete w"
  then show "complete (run ivk w)" by (simp add: run_complete)
  show "complete (snd (signal_complete u w))" by (simp add: signal_complete_def)
  from \<open>complete w\<close> show "complete (exec ivk w evs)" by (rule exec_complete_mono)
next
  show "Complete_assign False \<notin> set (effects (exec ivk (start name uid) evs))"
    by (rule no_reset_exec) (simp add: start_def)
qed

theorem complete_is_monotone_witness:
  "complete (snd (signal_complete ''bob'' (start ''World'' ''alice''))) \<and>
   complete (exec greet (snd (signal_complete ''bob'' (start ''World'' ''alice'')))
      [Resume, Resume, Signal ''carol'', Resume, Resume])"
proof -
  have c: "complete (snd (signal_complete ''bob'' (start ''World'' ''alice'')))"
    by (simp add: signal_complete_def)
  from complete_is_monotone [of "snd (signal_complete ''bob'' (start ''World'' ''alice''))"
         greet "''dave''" "[Resume, Resume, Signal ''carol'', Resume, Resume]"] c
  show ?thesis by blast
qed

text \<open>
  C5. Deliveries of \<^verbatim>\<open>signal_complete\<close> after a first one change nothing but their own
  log lines: with all later deliveries in \<open>post\<close> removed, the instance is at the same
  point of the run routine, has the same result and the same invocations of the activity;
  the flag is true after the first delivery and stays true, and the activity is invoked at
  most once (exactly once, by C2, once the run routine had its turns).
\<close>

theorem repeated_signal_no_effect:
  "complete (exec ivk (start name uid) (pre @ Signal u # post)) \<and>
   pc (exec ivk (start name uid) (pre @ Signal u # post)) =
     pc (exec ivk (start name uid) (pre @ Signal u # filter (\<lambda>e. \<not> is_signal e) post)) \<and>
   result (exec ivk (start name uid) (pre @ Signal u # post)) =
     result (exec ivk (start name uid) (pre @ Signal u # filter (\<lambda>e. \<not> is_signal e) post)) \<and>
   activity_calls (effects (exec ivk (start name uid) (pre @ Signal u # post))) =
     activity_calls (effects
       (exec ivk (start name uid) (pre @ Signal u # filter (\<lambda>e. \<not> is_signal e) post))) \<and>
   length (activity_calls (effects (exec ivk (start name uid) (pre @ Signal u # post)))) \<le> 1"
proof -
  let ?s = "step ivk (exec ivk (start name uid) pre) (Signal u)"
  let ?w1 = "exec ivk (start name uid) (pre @ Signal u # post)"
  let ?w2 = "exec ivk (start name uid) (pre @ Signal u # filter (\<lambda>e. \<not> is_signal e) post)"
  have w1: "?w1 = exec ivk ?s post" and w2: "?w2 = exec ivk ?s (filter (\<lambda>e. \<not> is_signal e) post)"
    by (simp_all add: exec_append exec_Cons del: step.simps)
  have s: "complete ?s" by (rule step_Signal_fields)
  then have c: "complete ?w1" unfolding w1 by (rule exec_complete_mono)
  have "same_core ?w1 ?w2"
    unfolding w1 w2 using s same_core_refl by (rule same_core_exec)
  then have "pc ?w1 = pc ?w2" and "activity_calls (effects ?w1) = activity_calls (effects ?w2)"
    by (simp_all add: same_core_def)
  moreover from \<open>pc ?w1 = pc ?w2\<close> have "result ?w1 = result ?w2"
    by (simp add: result_def)
  moreover have "length (activity_calls (effects ?w1)) \<le> 1"
    by (rule consistent_calls_le) (rule reachable_consistent)
  ultimately show ?thesis using c by blast
qed

theorem repeated_signal_no_effect_witness:
  "result (exec greet (start ''World'' ''alice'')
      ([Resume] @ Signal ''bob'' # [Signal ''bob'', Resume, Signal ''carol'', Resume, Signal ''bob''])) =
   Some ''Hello, World!'' \<and>
   activity_calls (effects (exec greet (start ''World'' ''alice'')
      ([Resume] @ Signal ''bob'' # [Signal ''bob'', Resume, Signal ''carol'', Resume, Signal ''bob'']))) =
   [(say_hello_activity, ''World'', Timedelta 300000000)]"
proof -
  have f: "filter (\<lambda>e. \<not> is_signal e)
             [Signal ''bob'', Resume, Signal ''carol'', Resume, Signal ''bob''] = [Resume, Resume]"
    by simp
  have r: "result (exec greet (start ''World'' ''alice'') ([Resume] @ Signal ''bob'' # [Resume, Resume]))
             = Some ''Hello, World!''"
    and a: "activity_calls (effects (exec greet (start ''World'' ''alice'')
              ([Resume] @ Signal ''bob'' # [Resume, Resume]))) =
            [(say_hello_activity, ''World'', Timedelta 300000000)]"
    by (simp_all add: exec_def run_def run_enter_def run_wait_condition_def run_activity_done_def
          signal_complete_def start_def result_def greet_def timedelta_minutes_def)
  from repeated_signal_no_effect [of greet "''World''" "''alice''" "[Resume]" "''bob''"
         "[Signal ''bob'', Resume, Signal ''carol'', Resume, Signal ''bob'']"]
  show ?thesis unfolding f using r a by simp
qed

text \<open>
  C10. The result does not depend on the identity context: two executions with the same
  input name, the same invoker and the same sequence of turns and deliveries, which differ
  in the identity at start and in the identities of the deliveries, have the same result,
  stand at the same point, make the same invocations, and have the same effects apart
  from the log lines.
\<close>

theorem result_independent_of_identity:
  assumes "map is_signal evs1 = map is_signal evs2"
  shows "result (exec ivk (start name uid1) evs1) = result (exec ivk (start name uid2) evs2) \<and>
         pc (exec ivk (start name uid1) evs1) = pc (exec ivk (start name uid2) evs2) \<and>
         activity_calls (effects (exec ivk (start name uid1) evs1)) =
           activity_calls (effects (exec ivk (start name uid2) evs2)) \<and>
         no_log (effects (exec ivk (start name uid1) evs1)) =
           no_log (effects (exec ivk (start name uid2) evs2))"
proof -
  let ?w1 = "exec ivk (start name uid1) evs1" and ?w2 = "exec ivk (start name uid2) evs2"
  have "same_but_identity ?w1 ?w2"
    using same_but_identity_start assms by (rule same_but_identity_exec)
  then have p: "pc ?w1 = pc ?w2" and n: "no_log (effects ?w1) = no_log (effects ?w2)"
    by (simp_all add: same_but_identity_def)
  from n have "activity_calls (no_log (effects ?w1)) = activity_calls (no_log (effects ?w2))"
    by simp
  then have "activity_calls (effects ?w1) = activity_calls (effects ?w2)"
    by (simp only: activity_calls_no_log)
  with p n show ?thesis by (simp add: result_def)
qed

theorem result_independent_of_identity_witness:
  "map is_signal [Resume, Signal ''bob'', Resume, Resume] =
     map is_signal [Resume, Signal ''mallory'', Resume, Resume] \<and>
   result (exec greet (start ''World'' ''eve'') [Resume, Signal ''mallory'', Resume, Resume]) =
     Some ''Hello, World!''"
proof -
  have m: "map is_signal [Resume, Signal ''bob'', Resume, Resume] =
             map is_signal [Resume, Signal ''mallory'', Resume, Resume]"
    by simp
  have r: "result (exec greet (start ''World'' ''alice'') [Resume, Signal ''bob'', Resume, Resume])
             = Some ''Hello, World!''"
    by (simp add: exec_def run_def run_enter_def run_wait_condition_def run_activity_done_def
          signal_complete_def start_def result_def greet_def)
  from result_independent_of_identity [OF m, of greet "''World''" "''alice''" "''eve''"] r m
  show ?thesis by simp
qed

text \<open>
  C6. If the activity invocation fails (times out or raises), with the failure \<open>f\<close>: under
  every schedule the workflow has no result and is never \<open>COMPLETED\<close>; and whenever a
  signal is followed by at least three turns of the run routine, the routine has been left
  by that same failure \<open>f\<close> (it is not caught), the instance is \<open>FAILED\<close>, and the
  invoker was called once only (no retry), however many turns follow.
\<close>

theorem activity_failure_propagates:
  assumes "ivk say_hello_activity name (timedelta_minutes 5) = Inl f"
  shows "(\<forall>uid evs. result (exec ivk (start name uid) evs) = None \<and>
            status_of (exec ivk (start name uid) evs) \<noteq> COMPLETED) \<and>
         (\<forall>uid pre u post. 3 \<le> count_list post Resume \<longrightarrow>
            pc (exec ivk (start name uid) (pre @ Signal u # post)) = Raised f \<and>
            status_of (exec ivk (start name uid) (pre @ Signal u # post)) = FAILED \<and>
            activity_calls (effects (exec ivk (start name uid) (pre @ Signal u # post))) =
              [(say_hello_activity, name, timedelta_minutes 5)])"
proof (intro conjI allI impI)
  fix uid evs
  let ?w = "exec ivk (start name uid) evs"
  have not_returned: "pc ?w \<noteq> Returned r" for r
  proof
    assume "pc ?w = Returned r"
    then have "ivk say_hello_activity name (timedelta_minutes 5) = Inr r"
      by (rule consistent_Returned [OF reachable_consistent])
    with assms show False by simp
  qed
  then show "result ?w = None"
    by (auto simp: result_def split: run_pc.splits)
  from not_returned show "status_of ?w \<noteq> COMPLETED"
    by (auto simp: status_of_def split: run_pc.splits)
next
  fix uid pre u post
  assume turns: "3 \<le> count_list post Resume"
  let ?w = "exec ivk (start name uid) (pre @ Signal u # post)"
  have rank: "rank (pc ?w) = 3"
    using turns by (rule finished_after_signal)
  then consider r where "pc ?w = Returned r" | g where "pc ?w = Raised g"
    by (auto simp: rank_3)
  then show raised: "pc ?w = Raised f"
  proof cases
    case 1
    then have "ivk say_hello_activity name (timedelta_minutes 5) = Inr r"
      by (rule consistent_Returned [OF reachable_consistent])
    with assms show ?thesis by simp
  next
    case 2
    then have "ivk say_hello_activity name (timedelta_minutes 5) = Inl g"
      by (rule consistent_Raised [OF reachable_consistent])
    with assms 2 show ?thesis by simp
  qed
  then show "status_of ?w = FAILED"
    by (simp add: status_of_def)
  have "activity_calls (effects ?w) = (if 2 \<le> rank (pc ?w) then [the_call name] else [])"
    by (rule consistent_calls_rank) (rule reachable_consistent)
  with rank show "activity_calls (effects ?w) = [(say_hello_activity, name, timedelta_minutes 5)]"
    by (simp add: the_call_def)
qed

theorem activity_failure_propagates_witness:
  "timing_out say_hello_activity ''World'' (timedelta_minutes 5) =
     Inl (ActivityFailure TimeoutError) \<and>
   3 \<le> count_list [Resume, Resume, Resume, Signal ''carol'', Resume] Resume \<and>
   pc (exec timing_out (start ''World'' ''alice'')
        ([Resume] @ Signal ''bob'' # [Resume, Resume, Resume, Signal ''carol'', Resume])) =
     Raised (ActivityFailure TimeoutError) \<and>
   result (exec timing_out (start ''World'' ''alice'')
        ([Resume] @ Signal ''bob'' # [Resume, Resume, Resume, Signal ''carol'', Resume])) = None"
proof -
  have h: "timing_out say_hello_activity ''World'' (timedelta_minutes 5) =
             Inl (ActivityFailure TimeoutError)"
    by (simp add: timing_out_def)
  have c: "3 \<le> count_list [Resume, Resume, Resume, Signal ''carol'', Resume] Resume"
    by simp
  from activity_failure_propagates
         [of timing_out "''World''" "ActivityFailure TimeoutError", OF h] c h
  show ?thesis by blast
qed

text \<open>
  C7. An instance is constructed with the flag false, no effect yet and the run routine
  not entered. The first turn of the run routine performs, in this order, the log of the
  current identity and the overwriting of the identity with \<open>''random''\<close>, and suspends at
  \<^verbatim>\<open>wait_condition\<close> without touching the flag. Suspended there, a turn changes nothing
  while the flag is false, and leaves the wait once the flag is true.
\<close>

theorem run_enters_then_waits:
  "complete (start name uid) = False \<and> pc (start name uid) = Created \<and>
   effects (start name uid) = [] \<and>
   step ivk (start name uid) Resume =
     \<lparr>complete = False, input_name = name, user_id = ''random'', pc = At_wait_condition,
      effects = [Logger_info (''Workflow called by user '' @ uid), User_id_set ''random'']\<rparr> \<and>
   (\<forall>w. pc w = Created \<longrightarrow>
      effects (run ivk w) = effects w @
        [Logger_info (''Workflow called by user '' @ user_id w), User_id_set ''random''] \<and>
      user_id (run ivk w) = ''random'' \<and> pc (run ivk w) = At_wait_condition \<and>
      complete (run ivk w) = complete w) \<and>
   (\<forall>w. pc w = At_wait_condition \<and> \<not> complete w \<longrightarrow> run ivk w = w) \<and>
   (\<forall>w. pc w = At_wait_condition \<and> complete w \<longrightarrow> pc (run ivk w) = At_execute_activity)"
proof (intro conjI allI impI)
  show "complete (start name uid) = False" "pc (start name uid) = Created"
    "effects (start name uid) = []"
    by (simp_all add: start_def)
  show "step ivk (start name uid) Resume =
     \<lparr>complete = False, input_name = name, user_id = ''random'', pc = At_wait_condition,
      effects = [Logger_info (''Workflow called by user '' @ uid), User_id_set ''random'']\<rparr>"
    by (simp add: start_def run_def run_enter_def)
next
  fix w :: workflow
  assume "pc w = Created"
  then have r: "run ivk w = w\<lparr>effects := effects w @
                      [Logger_info (''Workflow called by user '' @ user_id w),
                       User_id_set ''random''],
                    user_id := ''random'', pc := At_wait_condition\<rparr>"
    by (rule run_created)
  show "effects (run ivk w) = effects w @
        [Logger_info (''Workflow called by user '' @ user_id w), User_id_set ''random'']"
    "user_id (run ivk w) = ''random''" "pc (run ivk w) = At_wait_condition"
    "complete (run ivk w) = complete w"
    by (simp_all add: r)
next
  fix w :: workflow
  assume "pc w = At_wait_condition \<and> \<not> complete w"
  then show "run ivk w = w"
    by (simp add: run_at_wait_incomplete)
next
  fix w :: workflow
  assume "pc w = At_wait_condition \<and> complete w"
  then show "pc (run ivk w) = At_execute_activity"
    by (simp add: run_at_wait_complete)
qed

theorem run_enters_then_waits_witness:
  "pc (start ''World'' ''alice'') = Created \<and>
   effects (run greet (start ''World'' ''alice'')) =
     [Logger_info ''Workflow called by user alice'', User_id_set ''random''] \<and>
   pc (run greet (start ''World'' ''alice'')) = At_wait_condition \<and>
   \<not> complete (run greet (start ''World'' ''alice'')) \<and>
   run greet (run greet (start ''World'' ''alice'')) = run greet (start ''World'' ''alice'') \<and>
   complete (snd (signal_complete ''bob'' (run greet (start ''World'' ''alice'')))) \<and>
   pc (run greet (snd (signal_complete ''bob'' (run greet (start ''World'' ''alice''))))) =
     At_execute_activity"
proof -
  let ?w = "run greet (start ''World'' ''alice'')"
  have w: "?w = \<lparr>complete = False, input_name = ''World'', user_id = ''random'',
      pc = At_wait_condition,
      effects = [Logger_info ''Workflow called by user alice'', User_id_set ''random'']\<rparr>"
    by (simp add: start_def run_def run_enter_def)
  have s: "pc (snd (signal_complete ''bob'' ?w)) = At_wait_condition \<and>
           complete (snd (signal_complete ''bob'' ?w))"
    by (simp add: w signal_complete_def)
  have a: "pc ?w = At_wait_condition \<and> \<not> complete ?w"
    by (simp add: w)
  have e: "effects ?w = [Logger_info ''Workflow called by user alice'', User_id_set ''random'']"
    by (simp add: w)
  from run_enters_then_waits [of "''World''" "''alice''" greet] s a e
  show ?thesis by blast
qed

text \<open>
  C8. Every delivery of \<^verbatim>\<open>signal_complete\<close> performs exactly two effects, in this order:
  the log of the identity of the delivery, then the assignment of \<open>True\<close> to the flag. It
  changes nothing else of the instance (not the point of the run routine, its argument or
  its identity), and it returns no value (the unit value). Besides \<^verbatim>\<open>self\<close> it takes no
  argument: \<open>uid\<close> is the ambient identity of the call.
\<close>

theorem signal_logs_then_sets_flag:
  "fst (signal_complete uid w) = () \<and>
   effects (snd (signal_complete uid w)) =
     effects w @ [Logger_info (''Signal called by user '' @ uid), Complete_assign True] \<and>
   complete (snd (signal_complete uid w)) \<and>
   pc (snd (signal_complete uid w)) = pc w \<and>
   input_name (snd (signal_complete uid w)) = input_name w \<and>
   user_id (snd (signal_complete uid w)) = user_id w \<and>
   effects (exec ivk w (evs @ [Signal uid])) =
     effects (exec ivk w evs) @
       [Logger_info (''Signal called by user '' @ uid), Complete_assign True]"
  by (simp add: signal_complete_def exec_snoc)

theorem signal_logs_then_sets_flag_witness:
  "effects (exec greet (start ''World'' ''alice'') ([Resume] @ [Signal ''bob''])) =
     [Logger_info ''Workflow called by user alice'', User_id_set ''random'',
      Logger_info ''Signal called by user bob'', Complete_assign True]"
proof -
  have e: "effects (exec greet (start ''World'' ''alice'') [Resume]) =
     [Logger_info ''Workflow called by user alice'', User_id_set ''random'']"
    by (simp add: exec_def start_def run_def run_enter_def)
  from signal_logs_then_sets_flag [of "''bob''" "start ''World'' ''alice''" greet "[Resume]"] e
  show ?thesis by simp
qed

end
